theory Spec2Isabelle
  imports Main "HOL-Library.Multiset"
begin

section \<open>cgrep: the data model\<close>

text \<open>
  The embedding follows \<^verbatim>\<open>cgrep.go\<close>. Bytes are \<^typ>\<open>char\<close>, byte slices and Go
  strings are \<^typ>\<open>string\<close>. The compiled regular expression is used only through
  \<^verbatim>\<open>lineRx.Match\<close>, so it is a predicate on byte strings, a parameter of every
  function that receives it.
\<close>

text \<open>
  The \<^verbatim>\<open>Result\<close> struct. Go's \<^verbatim>\<open>int\<close> is modelled as an unbounded \<^typ>\<open>int\<close>: the
  counter \<^verbatim>\<open>lino\<close> starts at 1 and moves by one per read, so it stays far below the
  limit of a 64-bit \<^verbatim>\<open>int\<close> for every source that can be read to its end.
\<close>

record Result =
  fname :: string
  lino :: int
  line :: string

text \<open>
  The \<^verbatim>\<open>Job\<close> struct. Its \<^verbatim>\<open>results\<close> field always holds the one results channel
  that \<^verbatim>\<open>grep\<close> makes, which is a component of the state below; only the file name
  differs from job to job.
\<close>

datatype Job = Job (jname: string)

text \<open>
  Go \<^verbatim>\<open>error\<close> values: \<^verbatim>\<open>io.EOF\<close>, \<^verbatim>\<open>os.ErrInvalid\<close> and any other error, by its text.
\<close>

datatype error = EOF | ErrInvalid | ErrOther string

text \<open>
  What \<^verbatim>\<open>bufio.NewReader(file)\<close> reads from: the bytes the file still delivers,
  and the error that its \<^verbatim>\<open>Read\<close> returns once they are used up (\<^const>\<open>EOF\<close> for a
  file that is read to its end, another error for a read failure).
\<close>

record source =
  data :: string
  final :: error

text \<open>
  The file system as \<^verbatim>\<open>os.Open\<close> sees it: for a name, either the error of opening
  it or the opened file.
\<close>

type_synonym filesys = "string \<Rightarrow> error + source"

text \<open>
  What a run of \<^verbatim>\<open>Job.Do\<close> does to the outside, in program order: a send on the
  results channel or a call of \<^verbatim>\<open>log.Printf\<close>.
\<close>

datatype log_entry = OpenError error | ReadError error

datatype event = Send Result | Log log_entry

section \<open>Library functions used by \<^verbatim>\<open>Job.Do\<close>\<close>

definition nl :: char where
  "nl = CHR 0x0A"

definition cr :: char where
  "cr = CHR 0x0D"

text \<open>
  \<^verbatim>\<open>reader.ReadBytes(delim)\<close>: the bytes up to and including the first \<^verbatim>\<open>delim\<close>
  with no error, or, when there is no \<^verbatim>\<open>delim\<close> left, all remaining bytes together
  with the error of the underlying read. The second component is the reader afterwards.
\<close>

definition ReadBytes :: "source \<Rightarrow> char \<Rightarrow> (string \<times> error option) \<times> source" where
  "ReadBytes reader delim =
     (case dropWhile (\<lambda>c. c \<noteq> delim) (data reader) of
        [] \<Rightarrow> ((data reader, Some (final reader)), reader\<lparr>data := []\<rparr>)
      | d # rest \<Rightarrow>
          ((takeWhile (\<lambda>c. c \<noteq> delim) (data reader) @ [d], None), reader\<lparr>data := rest\<rparr>))"

text \<open>\<^verbatim>\<open>bytes.TrimRight(s, cutset)\<close>: \<^verbatim>\<open>s\<close> without its trailing bytes that are in \<^verbatim>\<open>cutset\<close>.\<close>

definition TrimRight :: "string \<Rightarrow> string \<Rightarrow> string" where
  "TrimRight s cutset = rev (dropWhile (\<lambda>c. c \<in> set cutset) (rev s))"

text \<open>
  A nil \<^verbatim>\<open>*os.File\<close>, which is what \<^verbatim>\<open>os.Open\<close> returns besides its error: every
  \<^verbatim>\<open>Read\<close> on it returns no byte and \<^verbatim>\<open>os.ErrInvalid\<close>.
\<close>

definition nil_file :: source where
  "nil_file = \<lparr>data = [], final = ErrInvalid\<rparr>"

section \<open>\<^verbatim>\<open>Job.Do\<close>\<close>

text \<open>
  The \<^verbatim>\<open>for lino := 1; ; lino++\<close> loop of \<^verbatim>\<open>Job.Do\<close>, from the state \<^verbatim>\<open>(lino, reader)\<close>:
  read, trim, send on a match, then look at the error: log it unless it is
  \<^verbatim>\<open>io.EOF\<close>, and leave the loop.
\<close>

function Do_loop :: "(string \<Rightarrow> bool) \<Rightarrow> string \<Rightarrow> int \<Rightarrow> source \<Rightarrow> event list" where
  "Do_loop lineRx fn n reader =
     (case ReadBytes reader nl of
        ((raw, err), reader') \<Rightarrow>
          (if lineRx (TrimRight raw [nl, cr])
           then [Send \<lparr>fname = fn, lino = n, line = TrimRight raw [nl, cr]\<rparr>] else []) @
          (case err of
             Some e \<Rightarrow> (if e \<noteq> EOF then [Log (ReadError e)] else [])
           | None \<Rightarrow> Do_loop lineRx fn (n + 1) reader'))"
  by pat_completeness auto
termination
proof (relation "measure (\<lambda>(lineRx, fn, n, reader). length (data reader))")
  show "wf (measure (\<lambda>(lineRx, fn, n, reader). length (data reader)))"
    by simp
next
  fix lineRx :: "string \<Rightarrow> bool" and fn :: string and n :: int and reader :: source
    and x y raw err
  assume "(x, y) = ReadBytes reader nl" and "(raw, err) = x" and "err = None"
  then have "ReadBytes reader nl = ((raw, None), y)"
    by simp
  then obtain d where "dropWhile (\<lambda>c. c \<noteq> nl) (data reader) = d # data y"
    by (auto simp: ReadBytes_def split: list.splits)
  then have "Suc (length (data y)) = length (dropWhile (\<lambda>c. c \<noteq> nl) (data reader))"
    by simp
  also have "\<dots> \<le> length (data reader)"
    by (rule length_dropWhile_le)
  finally have "length (data y) < length (data reader)"
    by simp
  then show "((lineRx, fn, n + 1, y), (lineRx, fn, n, reader))
      \<in> measure (\<lambda>(lineRx, fn, n, reader). length (data reader))"
    by simp
qed

text \<open>
  \<^verbatim>\<open>Job.Do\<close>. A failure of \<^verbatim>\<open>os.Open\<close> is logged and the function goes on with the
  nil file (there is no \<^verbatim>\<open>return\<close> in that branch).
\<close>

definition Do :: "filesys \<Rightarrow> Job \<Rightarrow> (string \<Rightarrow> bool) \<Rightarrow> event list" where
  "Do fs job lineRx =
     (case fs (jname job) of
        Inl err \<Rightarrow> Log (OpenError err) # Do_loop lineRx (jname job) 1 nil_file
      | Inr file \<Rightarrow> Do_loop lineRx (jname job) 1 file)"

text \<open>The results a run sends, in the order of sending.\<close>

fun sends :: "event list \<Rightarrow> Result list" where
  "sends [] = []"
| "sends (Send r # es) = r # sends es"
| "sends (Log m # es) = sends es"

section \<open>\<^verbatim>\<open>commandLineFiles\<close>\<close>

text \<open>
  \<^verbatim>\<open>runtime.GOOS\<close> and \<^verbatim>\<open>filepath.Glob\<close> are parameters. \<^verbatim>\<open>Glob\<close> returns an error
  or the list of matches (\<^verbatim>\<open>nil\<close> is the empty list: appending either adds nothing).
\<close>

definition commandLineFiles ::
    "string \<Rightarrow> (string \<Rightarrow> error + string list) \<Rightarrow> string list \<Rightarrow> string list" where
  "commandLineFiles GOOS Glob fnames =
     (if GOOS = ''windows''
      then foldl (\<lambda>args fname.
             case Glob fname of
               Inl err \<Rightarrow> args @ [fname]
             | Inr matches \<Rightarrow> (if matches \<noteq> [] then args @ matches else args)) [] fnames
      else fnames)"

section \<open>\<^verbatim>\<open>grep\<close>: the goroutines and their channels\<close>

text \<open>
  A Go channel: the values it buffers (oldest first), its capacity and whether it
  has been closed.
\<close>

record 'a chan =
  buf :: "'a list"
  cap :: nat
  closed :: bool

definition make_chan :: "nat \<Rightarrow> 'a chan" where
  "make_chan n = \<lparr>buf = [], cap = n, closed = False\<rparr>"

text \<open>
  Where a worker goroutine stands: at the head of \<^verbatim>\<open>for job := range jobs\<close>; inside
  \<^verbatim>\<open>job.Do(lineRx)\<close> with the effects this call has still to perform; at
  \<^verbatim>\<open>done <- struct{}{}\<close>; or at its end. The effects of a call are those of \<^const>\<open>Do\<close>
  on the file system as it is when the worker takes the job.
\<close>

datatype worker = Ranging | Doing Job "event list" | Signalling | Finished

text \<open>
  The state of a call of \<^verbatim>\<open>grep\<close> once its goroutines are started: the three channels
  (\<^verbatim>\<open>done\<close> is \<open>done_chan\<close> here), the file names the dispatching goroutine has
  still to send (\<open>None\<close> once it has closed \<^verbatim>\<open>jobs\<close>), the workers, the loop counter of
  the goroutine that waits for the workers (\<open>None\<close> once it has closed \<^verbatim>\<open>results\<close>),
  the lines printed by the loop of \<^verbatim>\<open>grep\<close> itself, the log, whether \<^verbatim>\<open>grep\<close> has
  returned and whether the program has panicked.
\<close>

record state =
  jobs :: "Job chan"
  results :: "Result chan"
  done_chan :: "unit chan"
  dispatcher :: "string list option"
  workers :: "worker list"
  aggregator :: "nat option"
  printed :: "Result list"
  logged :: "log_entry list"
  returned :: bool
  panicked :: bool

datatype goroutine = Dispatcher | Worker nat | Aggregator | Main

definition grep_init :: "nat \<Rightarrow> string list \<Rightarrow> state" where
  "grep_init cntWorkers fnames =
     \<lparr>jobs = make_chan cntWorkers,
      results = make_chan (length fnames),
      done_chan = make_chan cntWorkers,
      dispatcher = Some fnames,
      workers = replicate cntWorkers Ranging,
      aggregator = Some 0,
      printed = [], logged = [], returned = False, panicked = False\<rparr>"

text \<open>
  One step of each goroutine; \<open>None\<close> when the goroutine is blocked or has ended. A
  send needs room in the buffer, a receive needs a buffered value or a closed channel.
  A send on a closed channel and the closing of a closed channel panic. \<^verbatim>\<open>jobs\<close> and
  \<^verbatim>\<open>done\<close> have capacity 0 only when there is no worker, so nothing ever receives from
  the one or sends on the other; \<^verbatim>\<open>results\<close> has capacity 0 when there is no file name,
  and a send on it is then handed to the receiving loop of \<^verbatim>\<open>grep\<close> directly.
\<close>

definition dispatcher_step :: "state \<Rightarrow> state option" where
  "dispatcher_step s =
     (case dispatcher s of
        None \<Rightarrow> None
      | Some [] \<Rightarrow>
          if closed (jobs s) then Some (s\<lparr>panicked := True\<rparr>)
          else Some (s\<lparr>jobs := (jobs s)\<lparr>closed := True\<rparr>, dispatcher := None\<rparr>)
      | Some (f # rest) \<Rightarrow>
          if closed (jobs s) then Some (s\<lparr>panicked := True\<rparr>)
          else if length (buf (jobs s)) < cap (jobs s)
          then Some (s\<lparr>jobs := (jobs s)\<lparr>buf := buf (jobs s) @ [Job f]\<rparr>, dispatcher := Some rest\<rparr>)
          else None)"

definition worker_step :: "filesys \<Rightarrow> (string \<Rightarrow> bool) \<Rightarrow> nat \<Rightarrow> state \<Rightarrow> state option" where
  "worker_step fs lineRx i s =
     (if length (workers s) \<le> i then None
      else case workers s ! i of
        Ranging \<Rightarrow>
          (case buf (jobs s) of
             job # js \<Rightarrow>
               Some (s\<lparr>jobs := (jobs s)\<lparr>buf := js\<rparr>,
                       workers := (workers s)[i := Doing job (Do fs job lineRx)]\<rparr>)
           | [] \<Rightarrow>
               if closed (jobs s) then Some (s\<lparr>workers := (workers s)[i := Signalling]\<rparr>)
               else None)
      | Doing job [] \<Rightarrow> Some (s\<lparr>workers := (workers s)[i := Ranging]\<rparr>)
      | Doing job (Log m # es) \<Rightarrow>
          Some (s\<lparr>logged := logged s @ [m], workers := (workers s)[i := Doing job es]\<rparr>)
      | Doing job (Send r # es) \<Rightarrow>
          if closed (results s) then Some (s\<lparr>panicked := True\<rparr>)
          else if length (buf (results s)) < cap (results s)
          then Some (s\<lparr>results := (results s)\<lparr>buf := buf (results s) @ [r]\<rparr>,
                       workers := (workers s)[i := Doing job es]\<rparr>)
          else if cap (results s) = 0 \<and> \<not> returned s
          then Some (s\<lparr>printed := printed s @ [r], workers := (workers s)[i := Doing job es]\<rparr>)
          else None
      | Signalling \<Rightarrow>
          if closed (done_chan s) then Some (s\<lparr>panicked := True\<rparr>)
          else if length (buf (done_chan s)) < cap (done_chan s)
          then Some (s\<lparr>done_chan := (done_chan s)\<lparr>buf := buf (done_chan s) @ [()]\<rparr>,
                       workers := (workers s)[i := Finished]\<rparr>)
          else None
      | Finished \<Rightarrow> None)"

definition aggregator_step :: "nat \<Rightarrow> state \<Rightarrow> state option" where
  "aggregator_step cntWorkers s =
     (case aggregator s of
        None \<Rightarrow> None
      | Some i \<Rightarrow>
          if i < cntWorkers
          then (case buf (done_chan s) of
                  d # ds \<Rightarrow>
                    Some (s\<lparr>done_chan := (done_chan s)\<lparr>buf := ds\<rparr>, aggregator := Some (i + 1)\<rparr>)
                | [] \<Rightarrow>
                    if closed (done_chan s) then Some (s\<lparr>aggregator := Some (i + 1)\<rparr>) else None)
          else if closed (results s) then Some (s\<lparr>panicked := True\<rparr>)
          else Some (s\<lparr>results := (results s)\<lparr>closed := True\<rparr>, aggregator := None\<rparr>))"

definition main_step :: "state \<Rightarrow> state option" where
  "main_step s =
     (if returned s then None
      else case buf (results s) of
        r # rs \<Rightarrow> Some (s\<lparr>results := (results s)\<lparr>buf := rs\<rparr>, printed := printed s @ [r]\<rparr>)
      | [] \<Rightarrow> if closed (results s) then Some (s\<lparr>returned := True\<rparr>) else None)"

text \<open>A step of the program is a step of one of its goroutines; a panic ends it.\<close>

fun step :: "nat \<Rightarrow> filesys \<Rightarrow> (string \<Rightarrow> bool) \<Rightarrow> goroutine \<Rightarrow> state \<Rightarrow> state option" where
  "step cntWorkers fs lineRx g s =
     (if panicked s then None
      else case g of
        Dispatcher \<Rightarrow> dispatcher_step s
      | Worker i \<Rightarrow> worker_step fs lineRx i s
      | Aggregator \<Rightarrow> aggregator_step cntWorkers s
      | Main \<Rightarrow> main_step s)"

text \<open>A schedule is the list of the goroutines that move, in order.\<close>

fun run :: "nat \<Rightarrow> filesys \<Rightarrow> (string \<Rightarrow> bool) \<Rightarrow> goroutine list \<Rightarrow> state \<Rightarrow> state option" where
  "run cntWorkers fs lineRx [] s = Some s"
| "run cntWorkers fs lineRx (g # gs) s =
     (case step cntWorkers fs lineRx g s of
        None \<Rightarrow> None
      | Some s' \<Rightarrow> run cntWorkers fs lineRx gs s')"

text \<open>The states that a call of \<^verbatim>\<open>grep\<close> can reach, under any schedule.\<close>

inductive reachable :: "nat \<Rightarrow> filesys \<Rightarrow> (string \<Rightarrow> bool) \<Rightarrow> string list \<Rightarrow> state \<Rightarrow> bool"
  for cntWorkers fs lineRx fnames where
  init: "reachable cntWorkers fs lineRx fnames (grep_init cntWorkers fnames)"
| step: "reachable cntWorkers fs lineRx fnames s \<Longrightarrow> step cntWorkers fs lineRx g s = Some s' \<Longrightarrow>
     reachable cntWorkers fs lineRx fnames s'"

text \<open>
  From a state, \<^verbatim>\<open>grep\<close> returns on every schedule: it has returned already, or a
  goroutine can move and whatever moves leads to a state from which it returns.
\<close>

inductive returns :: "nat \<Rightarrow> filesys \<Rightarrow> (string \<Rightarrow> bool) \<Rightarrow> state \<Rightarrow> bool"
  for cntWorkers fs lineRx where
  now: "returned s \<Longrightarrow> \<not> panicked s \<Longrightarrow> returns cntWorkers fs lineRx s"
| later: "\<exists>g s'. step cntWorkers fs lineRx g s = Some s' \<Longrightarrow>
     (\<And>g s'. step cntWorkers fs lineRx g s = Some s' \<Longrightarrow> returns cntWorkers fs lineRx s') \<Longrightarrow>
     returns cntWorkers fs lineRx s"

section \<open>The specification's view of a file\<close>

text \<open>
  The definitions of this section follow the specification's words, not the code. The
  lines of a text: every \<^verbatim>\<open>\\n\<close> ends a line, and what follows the last \<^verbatim>\<open>\\n\<close> is
  one more line when it is not empty. A text with no byte has no line. The lines are kept
  without their \<^verbatim>\<open>\\n\<close>.
\<close>

primrec split_lines :: "string \<Rightarrow> string \<Rightarrow> string list" where
  "split_lines cur [] = (if cur = [] then [] else [cur])"
| "split_lines cur (c # cs) =
     (if c = nl then cur # split_lines [] cs else split_lines (cur @ [c]) cs)"

definition spec_lines :: "string \<Rightarrow> string list" where
  "spec_lines content = split_lines [] content"

text \<open>Stripping the trailing line terminators \<^verbatim>\<open>\\n\<close> and \<^verbatim>\<open>\\r\<close> of a line.\<close>

definition spec_strip :: "string \<Rightarrow> string" where
  "spec_strip l = rev (dropWhile (\<lambda>c. c = nl \<or> c = cr) (rev l))"

text \<open>Line numbers: consecutive, from the given first number.\<close>

fun spec_numbered :: "int \<Rightarrow> 'a list \<Rightarrow> (int \<times> 'a) list" where
  "spec_numbered n [] = []"
| "spec_numbered n (x # xs) = (n, x) # spec_numbered (n + 1) xs"

text \<open>
  The matches of a file: one (file, line number, stripped content) triple for every line
  whose stripped content matches, numbered from 1, in the order of the lines.
\<close>

definition spec_matches_of ::
    "(string \<Rightarrow> bool) \<Rightarrow> string \<Rightarrow> (int \<times> string) list \<Rightarrow> Result list" where
  "spec_matches_of P f nls =
     map (\<lambda>(i, l). \<lparr>fname = f, lino = i, line = spec_strip l\<rparr>)
       (filter (\<lambda>(i, l). P (spec_strip l)) nls)"

definition spec_matches :: "(string \<Rightarrow> bool) \<Rightarrow> string \<Rightarrow> string \<Rightarrow> Result list" where
  "spec_matches P f content = spec_matches_of P f (spec_numbered 1 (spec_lines content))"

section \<open>Measures and invariants of \<^verbatim>\<open>grep\<close>\<close>

text \<open>
  The results that a state still has to print or has printed: those printed, those in
  the buffer of \<^verbatim>\<open>results\<close>, those the running jobs have still to send, and those of
  the jobs not yet started.
\<close>

fun pending :: "worker \<Rightarrow> Result list" where
  "pending (Doing job es) = sends es"
| "pending w = []"

definition owed :: "filesys \<Rightarrow> (string \<Rightarrow> bool) \<Rightarrow> state \<Rightarrow> Result multiset" where
  "owed fs lineRx s =
     mset (printed s) + mset (buf (results s)) +
     (\<Sum>w\<leftarrow>workers s. mset (pending w)) +
     (\<Sum>job\<leftarrow>buf (jobs s). mset (sends (Do fs job lineRx))) +
     (\<Sum>f\<leftarrow>(case dispatcher s of Some rest \<Rightarrow> rest | None \<Rightarrow> []). mset (sends (Do fs (Job f) lineRx)))"

text \<open>
  An upper bound of the number of steps that are left: every step of every goroutine
  lowers it.
\<close>

fun cost :: "event list \<Rightarrow> nat" where
  "cost [] = 0"
| "cost (Send r # es) = 2 + cost es"
| "cost (Log m # es) = 1 + cost es"

fun worker_weight :: "worker \<Rightarrow> nat" where
  "worker_weight Ranging = 2"
| "worker_weight (Doing job es) = cost es + 3"
| "worker_weight Signalling = 1"
| "worker_weight Finished = 0"

definition weight :: "nat \<Rightarrow> filesys \<Rightarrow> (string \<Rightarrow> bool) \<Rightarrow> state \<Rightarrow> nat" where
  "weight cntWorkers fs lineRx s =
     (if panicked s then 0 else 1) +
     (case dispatcher s of
        Some rest \<Rightarrow> 1 + (\<Sum>f\<leftarrow>rest. cost (Do fs (Job f) lineRx) + 3)
      | None \<Rightarrow> 0) +
     (\<Sum>job\<leftarrow>buf (jobs s). cost (Do fs job lineRx) + 2) +
     (\<Sum>w\<leftarrow>workers s. worker_weight w) +
     length (buf (results s)) +
     (case aggregator s of Some i \<Rightarrow> cntWorkers - i + 1 | None \<Rightarrow> 0) +
     (if returned s then 0 else 1)"

text \<open>What holds in every reachable state.\<close>

definition grep_inv :: "nat \<Rightarrow> state \<Rightarrow> bool" where
  "grep_inv cntWorkers s \<longleftrightarrow>
     \<not> panicked s \<and>
     length (workers s) = cntWorkers \<and>
     cap (jobs s) = cntWorkers \<and>
     cap (done_chan s) = cntWorkers \<and>
     (closed (jobs s) \<longleftrightarrow> dispatcher s = None) \<and>
     (closed (results s) \<longleftrightarrow> aggregator s = None) \<and>
     \<not> closed (done_chan s) \<and>
     (case aggregator s of Some i \<Rightarrow> i | None \<Rightarrow> cntWorkers) + length (buf (done_chan s)) =
       count_list (workers s) Finished \<and>
     (Signalling \<in> set (workers s) \<or> Finished \<in> set (workers s) \<longrightarrow>
        closed (jobs s) \<and> buf (jobs s) = []) \<and>
     (returned s \<longrightarrow> closed (results s) \<and> buf (results s) = [])"

section \<open>The scan of one file\<close>

declare Do_loop.simps [simp del]

lemma ReadBytes_last:
  "nl \<notin> set d \<Longrightarrow> ReadBytes \<lparr>data = d, final = e\<rparr> nl = ((d, Some e), \<lparr>data = [], final = e\<rparr>)"
proof -
  assume "nl \<notin> set d"
  then have h: "dropWhile (\<lambda>c. c \<noteq> nl) d = []"
    by auto
  show ?thesis
    by (simp add: ReadBytes_def h del: dropWhile_eq_Nil_conv)
qed

lemma ReadBytes_line:
  "nl \<notin> set l \<Longrightarrow>
   ReadBytes \<lparr>data = l @ nl # rest, final = e\<rparr> nl = ((l @ [nl], None), \<lparr>data = rest, final = e\<rparr>)"
proof -
  assume a: "nl \<notin> set l"
  then have "dropWhile (\<lambda>c. c \<noteq> nl) (l @ nl # rest) = nl # rest"
    by (subst dropWhile_append2) auto
  moreover from a have "takeWhile (\<lambda>c. c \<noteq> nl) (l @ nl # rest) = l"
    by (subst takeWhile_append2) auto
  ultimately show ?thesis
    by (simp add: ReadBytes_def)
qed

lemma TrimRight_spec_strip: "TrimRight l [nl, cr] = spec_strip l"
  by (simp add: TrimRight_def spec_strip_def)

lemma spec_strip_append_cut: "set t \<subseteq> {nl, cr} \<Longrightarrow> spec_strip (s @ t) = spec_strip s"
  by (induction t rule: rev_induct) (auto simp: spec_strip_def)

lemma spec_strip_Nil [simp]: "spec_strip [] = []"
  by (simp add: spec_strip_def)

lemma spec_strip_no_trailing: "spec_strip s \<noteq> [] \<Longrightarrow> last (spec_strip s) \<notin> {nl, cr}"
proof -
  assume a: "spec_strip s \<noteq> []"
  let ?d = "dropWhile (\<lambda>c. c = nl \<or> c = cr) (rev s)"
  from a have ne: "?d \<noteq> []" by (simp add: spec_strip_def)
  then have "\<not> (hd ?d = nl \<or> hd ?d = cr)" by (rule hd_dropWhile)
  moreover have "last (spec_strip s) = hd ?d" using ne by (simp add: spec_strip_def last_rev)
  ultimately show ?thesis by simp
qed

lemma Do_loop_last:
  "nl \<notin> set d \<Longrightarrow>
   Do_loop P f n \<lparr>data = d, final = e\<rparr> =
     (if P (spec_strip d) then [Send \<lparr>fname = f, lino = n, line = spec_strip d\<rparr>] else []) @
     (if e \<noteq> EOF then [Log (ReadError e)] else [])"
  by (subst Do_loop.simps) (simp add: ReadBytes_last TrimRight_spec_strip)

lemma Do_loop_line:
  "nl \<notin> set l \<Longrightarrow>
   Do_loop P f n \<lparr>data = l @ nl # rest, final = e\<rparr> =
     (if P (spec_strip l) then [Send \<lparr>fname = f, lino = n, line = spec_strip l\<rparr>] else []) @
     Do_loop P f (n + 1) \<lparr>data = rest, final = e\<rparr>"
  by (subst Do_loop.simps) (simp add: ReadBytes_line TrimRight_spec_strip spec_strip_append_cut)

lemma sends_append [simp]: "sends (xs @ ys) = sends xs @ sends ys"
  by (induction xs rule: sends.induct) auto

lemma Do_loop_prefix:
  "nl \<notin> set cur \<Longrightarrow> (s = [] \<and> cur = []) \<or> (s \<noteq> [] \<and> last s = nl) \<Longrightarrow>
   Do_loop P f n \<lparr>data = cur @ s @ rest, final = e\<rparr> =
     map Send (spec_matches_of P f (spec_numbered n (split_lines cur s))) @
     Do_loop P f (n + int (count_list s nl)) \<lparr>data = rest, final = e\<rparr>"
proof (induction s arbitrary: cur n)
  case Nil
  then show ?case by (simp add: spec_matches_of_def)
next
  case (Cons c cs)
  show ?case
  proof (cases "c = nl")
    case True
    have "Do_loop P f (n + 1) \<lparr>data = [] @ cs @ rest, final = e\<rparr> =
        map Send (spec_matches_of P f (spec_numbered (n + 1) (split_lines [] cs))) @
        Do_loop P f (n + 1 + int (count_list cs nl)) \<lparr>data = rest, final = e\<rparr>"
      using Cons.prems by (intro Cons.IH) (auto split: if_splits)
    with True Cons.prems(1) show ?thesis
      by (simp add: Do_loop_line spec_matches_of_def ac_simps)
  next
    case False
    with Cons.prems have "Do_loop P f n \<lparr>data = (cur @ [c]) @ cs @ rest, final = e\<rparr> =
        map Send (spec_matches_of P f (spec_numbered n (split_lines (cur @ [c]) cs))) @
        Do_loop P f (n + int (count_list cs nl)) \<lparr>data = rest, final = e\<rparr>"
      by (intro Cons.IH) (auto split: if_splits)
    with False show ?thesis by simp
  qed
qed

lemma Do_loop_complete:
  "pre = [] \<or> last pre = nl \<Longrightarrow>
   Do_loop P f n \<lparr>data = pre @ rest, final = e\<rparr> =
     map Send (spec_matches_of P f (spec_numbered n (spec_lines pre))) @
     Do_loop P f (n + int (count_list pre nl)) \<lparr>data = rest, final = e\<rparr>"
  using Do_loop_prefix [of "[]" pre P f n rest e] by (auto simp: spec_lines_def)

lemma Do_loop_file:
  "pre = [] \<or> last pre = nl \<Longrightarrow> nl \<notin> set rest \<Longrightarrow>
   Do_loop P f n \<lparr>data = pre @ rest, final = e\<rparr> =
     map Send (spec_matches_of P f (spec_numbered n (spec_lines pre))) @
     (if P (spec_strip rest)
      then [Send \<lparr>fname = f, lino = n + int (count_list pre nl), line = spec_strip rest\<rparr>] else []) @
     (if e \<noteq> EOF then [Log (ReadError e)] else [])"
  by (simp add: Do_loop_complete Do_loop_last)

lemma sends_map_Send [simp]: "sends (map Send rs) = rs"
  by (induction rs) auto

lemma length_split_lines:
  "s = [] \<and> cur = [] \<or> s \<noteq> [] \<and> last s = nl \<Longrightarrow> length (split_lines cur s) = count_list s nl"
  by (induction s arbitrary: cur) (auto split: if_splits)

lemma length_spec_lines: "pre = [] \<or> last pre = nl \<Longrightarrow> length (spec_lines pre) = count_list pre nl"
  using length_split_lines [of pre "[]"] by (auto simp: spec_lines_def)

lemma split_lines_append:
  "nl \<notin> set rest \<Longrightarrow> s = [] \<and> cur = [] \<or> s \<noteq> [] \<and> last s = nl \<Longrightarrow>
   split_lines cur (s @ rest) = split_lines cur s @ (if rest = [] then [] else [rest])"
proof (induction s arbitrary: cur)
  case Nil
  have "nl \<notin> set rest \<Longrightarrow> split_lines c rest = (if c @ rest = [] then [] else [c @ rest])" for c
    by (induction rest arbitrary: c) auto
  with Nil show ?case by simp
next
  case (Cons c cs)
  then show ?case by (auto split: if_splits)
qed

lemma spec_lines_append:
  "pre = [] \<or> last pre = nl \<Longrightarrow> nl \<notin> set rest \<Longrightarrow>
   spec_lines (pre @ rest) = spec_lines pre @ (if rest = [] then [] else [rest])"
  using split_lines_append [of rest pre "[]"] by (auto simp: spec_lines_def)

lemma spec_numbered_append:
  "spec_numbered n (xs @ ys) = spec_numbered n xs @ spec_numbered (n + int (length xs)) ys"
  by (induction xs arbitrary: n) (auto simp: add.assoc add.commute)

lemma spec_matches_of_append [simp]:
  "spec_matches_of P f (xs @ ys) = spec_matches_of P f xs @ spec_matches_of P f ys"
  by (simp add: spec_matches_of_def)

lemma Do_loop_unfold:
  "ReadBytes reader nl = ((raw, err), reader') \<Longrightarrow>
   Do_loop P f n reader =
     (if P (spec_strip raw) then [Send \<lparr>fname = f, lino = n, line = spec_strip raw\<rparr>] else []) @
     (case err of
        Some e \<Rightarrow> (if e \<noteq> EOF then [Log (ReadError e)] else [])
      | None \<Rightarrow> Do_loop P f (n + 1) reader')"
  by (subst Do_loop.simps) (simp add: TrimRight_spec_strip)

lemma Do_loop_sends_bounds:
  "r \<in> set (sends (Do_loop P f n src)) \<Longrightarrow>
   n \<le> lino r \<and> fname r = f \<and> P (line r) \<and> (\<exists>raw. line r = spec_strip raw)"
proof (induction P f n src rule: Do_loop.induct)
  case (1 lineRx fn n reader)
  obtain raw err reader' where rb: "ReadBytes reader nl = ((raw, err), reader')"
    by (metis prod.exhaust)
  show ?case
  proof (cases err)
    case None
    from "1.prems" have "r \<in> set (sends (Do_loop lineRx fn (n + 1) reader')) \<or>
        (lineRx (spec_strip raw) \<and> r = \<lparr>fname = fn, lino = n, line = spec_strip raw\<rparr>)"
      by (auto simp: Do_loop_unfold [OF rb] None split: if_splits)
    then show ?thesis
    proof
      assume "r \<in> set (sends (Do_loop lineRx fn (n + 1) reader'))"
      with "1.IH" [OF rb [symmetric] refl None] show ?thesis by simp
    next
      assume "lineRx (spec_strip raw) \<and> r = \<lparr>fname = fn, lino = n, line = spec_strip raw\<rparr>"
      then show ?thesis by auto
    qed
  next
    case (Some e)
    with "1.prems" show ?thesis
      by (auto simp: Do_loop_unfold [OF rb] split: if_splits)
  qed
qed

lemma Do_loop_sorted: "sorted_wrt (<) (map lino (sends (Do_loop P f n src)))"
proof (induction P f n src rule: Do_loop.induct)
  case (1 lineRx fn n reader)
  obtain raw err reader' where rb: "ReadBytes reader nl = ((raw, err), reader')"
    by (metis prod.exhaust)
  show ?case
  proof (cases err)
    case None
    have "sorted_wrt (<) (map lino (sends (Do_loop lineRx fn (n + 1) reader')))"
      by (rule "1.IH" [OF rb [symmetric] refl None])
    moreover have "\<forall>r \<in> set (sends (Do_loop lineRx fn (n + 1) reader')). n < lino r"
      using Do_loop_sends_bounds [of _ lineRx fn "n + 1" reader'] by force
    ultimately show ?thesis using None
      by (auto simp: Do_loop_unfold [OF rb])
  next
    case (Some e)
    then show ?thesis
      by (auto simp: Do_loop_unfold [OF rb])
  qed
qed

lemma Do_opened:
  "fs (jname job) = Inr file \<Longrightarrow> Do fs job lineRx = Do_loop lineRx (jname job) 1 file"
  by (simp add: Do_def)

section \<open>The goroutines together\<close>

lemma sum_list_map_update:
  fixes f :: "'a \<Rightarrow> 'b::comm_monoid_add"
  shows "i < length xs \<Longrightarrow>
    sum_list (map f (xs[i := y])) + f (xs ! i) = sum_list (map f xs) + f y"
proof (induction xs arbitrary: i)
  case Nil
  then show ?case by simp
next
  case (Cons x xs)
  show ?case
  proof (cases i)
    case 0
    then show ?thesis by (simp add: ac_simps)
  next
    case (Suc k)
    with Cons.prems have "k < length xs" by simp
    from Cons.IH [OF this] Suc show ?thesis
      by (simp add: ac_simps)
  qed
qed

lemma count_list_update:
  "i < length xs \<Longrightarrow>
   count_list (xs[i := y]) a + (if xs ! i = a then 1 else 0) =
   count_list xs a + (if y = a then 1 else 0)"
proof (induction xs arbitrary: i)
  case Nil
  then show ?case by simp
next
  case (Cons x xs)
  show ?case
  proof (cases i)
    case 0
    then show ?thesis by simp
  next
    case (Suc k)
    with Cons.prems have "k < length xs" by simp
    from Cons.IH [OF this] Suc show ?thesis by (auto split: if_splits)
  qed
qed

lemma count_list_less_length:
  "i < length xs \<Longrightarrow> xs ! i \<noteq> a \<Longrightarrow> count_list xs a < length xs"
proof (induction xs arbitrary: i)
  case Nil
  then show ?case by simp
next
  case (Cons x xs)
  have le: "count_list xs a \<le> length xs"
    by (rule count_le_length)
  show ?case
  proof (cases i)
    case 0
    with Cons.prems le show ?thesis by simp
  next
    case (Suc k)
    with Cons.prems have "count_list xs a < length xs"
      by (intro Cons.IH [of k]) simp_all
    with le show ?thesis by simp
  qed
qed

lemma count_list_less_lengthD:
  "count_list xs a < length xs \<Longrightarrow> \<exists>i<length xs. xs ! i \<noteq> a"
proof (induction xs)
  case Nil
  then show ?case by simp
next
  case (Cons x xs)
  show ?case
  proof (cases "x = a")
    case True
    with Cons obtain i where "i < length xs" "xs ! i \<noteq> a" by auto
    then have "Suc i < length (x # xs) \<and> (x # xs) ! Suc i \<noteq> a" by simp
    then show ?thesis by blast
  next
    case False
    then have "0 < length (x # xs) \<and> (x # xs) ! 0 \<noteq> a" by simp
    then show ?thesis by blast
  qed
qed

lemma cost_append [simp]: "cost (xs @ ys) = cost xs + cost ys"
  by (induction xs rule: cost.induct) auto

subsection \<open>Every step lowers the weight\<close>

lemma dispatcher_step_weight:
  "dispatcher_step s = Some s' \<Longrightarrow> \<not> panicked s \<Longrightarrow>
   weight n fs rx s' < weight n fs rx s"
  by (auto simp: dispatcher_step_def weight_def split: option.splits list.splits if_splits)

lemma worker_step_weight:
  assumes "worker_step fs rx i s = Some s'" and "\<not> panicked s"
  shows "weight n fs rx s' < weight n fs rx s"
proof -
  from assms(1) have i: "i < length (workers s)"
    by (auto simp: worker_step_def split: if_splits)
  note upd = sum_list_map_update [OF i, of worker_weight]
  show ?thesis
  proof (cases "workers s ! i")
    case Ranging
    with assms i upd [of "Signalling"] upd [of "Doing (hd (buf (jobs s))) (Do fs (hd (buf (jobs s))) rx)"]
    show ?thesis
      by (auto simp: worker_step_def weight_def split: list.splits if_splits)
  next
    case (Doing job es)
    show ?thesis
    proof (cases es)
      case Nil
      with Doing assms i upd [of Ranging] show ?thesis
        by (auto simp: worker_step_def weight_def)
    next
      case (Cons e es')
      with Doing assms i upd [of "Doing job es'"] show ?thesis
        by (cases e) (auto simp: worker_step_def weight_def split: if_splits)
    qed
  next
    case Signalling
    with assms i upd [of Finished] show ?thesis
      by (auto simp: worker_step_def weight_def split: if_splits)
  next
    case Finished
    with assms i show ?thesis
      by (auto simp: worker_step_def)
  qed
qed

lemma aggregator_step_weight:
  "aggregator_step n s = Some s' \<Longrightarrow> \<not> panicked s \<Longrightarrow>
   weight n fs rx s' < weight n fs rx s"
  by (auto simp: aggregator_step_def weight_def split: option.splits list.splits if_splits)

lemma main_step_weight:
  "main_step s = Some s' \<Longrightarrow> \<not> panicked s \<Longrightarrow> weight n fs rx s' < weight n fs rx s"
  by (auto simp: main_step_def weight_def split: option.splits list.splits if_splits)

lemma step_weight:
  "step n fs rx g s = Some s' \<Longrightarrow> weight n fs rx s' < weight n fs rx s"
  by (cases g)
    (auto simp: dispatcher_step_weight worker_step_weight aggregator_step_weight main_step_weight
      split: if_splits)

subsection \<open>No step loses or adds a result\<close>

lemma dispatcher_step_owed:
  "dispatcher_step s = Some s' \<Longrightarrow> owed fs rx s' = owed fs rx s"
  by (auto simp: dispatcher_step_def owed_def split: option.splits list.splits if_splits)

lemma worker_step_owed:
  assumes "worker_step fs rx i s = Some s'"
  shows "owed fs rx s' = owed fs rx s"
proof -
  from assms(1) have i: "i < length (workers s)"
    by (auto simp: worker_step_def split: if_splits)
  note upd = sum_list_map_update [OF i, of "\<lambda>w. mset (pending w)"]
  show ?thesis
  proof (cases "workers s ! i")
    case Ranging
    with assms i upd [of "Signalling"] upd [of "Doing (hd (buf (jobs s))) (Do fs (hd (buf (jobs s))) rx)"]
    show ?thesis
      by (auto simp: worker_step_def owed_def split: list.splits if_splits)
  next
    case (Doing job es)
    show ?thesis
    proof (cases es)
      case Nil
      with Doing assms i upd [of Ranging] show ?thesis
        by (auto simp: worker_step_def owed_def)
    next
      case (Cons e es')
      with Doing assms i upd [of "Doing job es'"] show ?thesis
        by (cases e) (auto simp: worker_step_def owed_def split: if_splits)
    qed
  next
    case Signalling
    with assms i upd [of Finished] show ?thesis
      by (auto simp: worker_step_def owed_def split: if_splits)
  next
    case Finished
    with assms i show ?thesis
      by (auto simp: worker_step_def)
  qed
qed

lemma aggregator_step_owed:
  "aggregator_step n s = Some s' \<Longrightarrow> owed fs rx s' = owed fs rx s"
  by (auto simp: aggregator_step_def owed_def split: option.splits list.splits if_splits)

lemma main_step_owed:
  "main_step s = Some s' \<Longrightarrow> owed fs rx s' = owed fs rx s"
  by (auto simp: main_step_def owed_def split: option.splits list.splits if_splits)

lemma step_owed:
  "step n fs rx g s = Some s' \<Longrightarrow> owed fs rx s' = owed fs rx s"
  by (cases g)
    (auto simp: dispatcher_step_owed worker_step_owed aggregator_step_owed main_step_owed
      split: if_splits)

subsection \<open>The invariant\<close>

lemma grep_inv_init: "grep_inv n (grep_init n fnames)"
  by (simp add: grep_inv_def grep_init_def make_chan_def)

lemma dispatcher_step_inv:
  "dispatcher_step s = Some s' \<Longrightarrow> grep_inv n s \<Longrightarrow> grep_inv n s'"
  by (auto simp: dispatcher_step_def grep_inv_def split: option.splits list.splits if_splits)

lemma aggregator_step_inv:
  "aggregator_step n s = Some s' \<Longrightarrow> grep_inv n s \<Longrightarrow> grep_inv n s'"
proof -
  have "count_list (workers s) Finished \<le> length (workers s)"
    by (rule count_le_length)
  then show "aggregator_step n s = Some s' \<Longrightarrow> grep_inv n s \<Longrightarrow> grep_inv n s'"
    by (auto simp: aggregator_step_def grep_inv_def split: option.splits list.splits if_splits)
qed

lemma main_step_inv:
  "main_step s = Some s' \<Longrightarrow> grep_inv n s \<Longrightarrow> grep_inv n s'"
  by (auto simp: main_step_def grep_inv_def split: option.splits list.splits if_splits)

lemma set_update_cases:
  "x \<in> set (xs[i := y]) \<Longrightarrow> x = y \<or> x \<in> set xs"
  using set_update_subset_insert [of xs i y] by auto

lemma worker_step_inv:
  assumes st: "worker_step fs rx i s = Some s'" and inv: "grep_inv n s"
  shows "grep_inv n s'"
proof -
  from st have i: "i < length (workers s)"
    by (auto simp: worker_step_def split: if_splits)
  then have mem: "workers s ! i \<in> set (workers s)"
    by simp
  note cnt = count_list_update [OF i, of _ Finished]
  have open_results: "\<not> closed (results s)" if "workers s ! i \<noteq> Finished"
  proof
    assume "closed (results s)"
    with inv have "n + length (buf (done_chan s)) = count_list (workers s) Finished"
      and "length (workers s) = n"
      by (auto simp: grep_inv_def)
    with count_list_less_length [OF i that] show False by simp
  qed
  show ?thesis
  proof (cases "workers s ! i")
    case Ranging
    show ?thesis
    proof (cases "buf (jobs s)")
      case Nil
      with Ranging st inv i mem cnt [of Signalling] show ?thesis
        by (auto simp: worker_step_def grep_inv_def split: if_splits dest!: set_update_cases)
    next
      case (Cons job js)
      with Ranging st inv i mem cnt [of "Doing job (Do fs job rx)"] show ?thesis
        by (auto simp: worker_step_def grep_inv_def dest!: set_update_cases)
    qed
  next
    case (Doing job es)
    show ?thesis
    proof (cases es)
      case Nil
      with Doing st inv i mem cnt [of Ranging] show ?thesis
        by (auto simp: worker_step_def grep_inv_def dest!: set_update_cases)
    next
      case (Cons e es')
      with Doing st inv i mem cnt [of "Doing job es'"] open_results show ?thesis
        by (cases e)
          (auto simp: worker_step_def grep_inv_def split: if_splits dest!: set_update_cases)
    qed
  next
    case Signalling
    with st inv i mem cnt [of Finished] show ?thesis
      by (auto simp: worker_step_def grep_inv_def split: if_splits dest!: set_update_cases)
  next
    case Finished
    with st i show ?thesis
      by (auto simp: worker_step_def)
  qed
qed

lemma step_inv:
  "step n fs rx g s = Some s' \<Longrightarrow> grep_inv n s \<Longrightarrow> grep_inv n s'"
  by (cases g)
    (auto simp: dispatcher_step_inv worker_step_inv aggregator_step_inv main_step_inv
      split: if_splits)

lemma reachable_inv: "reachable n fs rx fnames s \<Longrightarrow> grep_inv n s"
  by (induction rule: reachable.induct) (auto intro: grep_inv_init step_inv)

lemma reachable_owed:
  "reachable n fs rx fnames s \<Longrightarrow>
   owed fs rx s = (\<Sum>f\<leftarrow>fnames. mset (sends (Do fs (Job f) rx)))"
proof (induction rule: reachable.induct)
  case init
  have "(\<Sum>w\<leftarrow>replicate n Ranging. mset (pending w)) = {#}"
    by (induction n) auto
  then show ?case by (simp add: owed_def grep_init_def make_chan_def)
next
  case (step s g s')
  then show ?case by (simp add: step_owed)
qed

subsection \<open>Some goroutine can always move\<close>

lemma progress:
  assumes inv: "grep_inv n s" and nr: "\<not> returned s"
  shows "\<exists>g s'. step n fs rx g s = Some s'"
proof -
  from inv have np: "\<not> panicked s"
    and len: "length (workers s) = n"
    and od: "\<not> closed (done_chan s)" and cd: "cap (done_chan s) = n"
    and cj: "cap (jobs s) = n" and dj: "closed (jobs s) \<longleftrightarrow> dispatcher s = None"
    and ra: "closed (results s) \<longleftrightarrow> aggregator s = None"
    and cnt: "(case aggregator s of Some i \<Rightarrow> i | None \<Rightarrow> n) + length (buf (done_chan s)) =
       count_list (workers s) Finished"
    by (simp_all add: grep_inv_def)
  have main: "\<exists>g s'. step n fs rx g s = Some s'" if "main_step s \<noteq> None"
  proof -
    from that obtain s' where "main_step s = Some s'" by auto
    with np have "step n fs rx Main s = Some s'" by simp
    then show ?thesis by blast
  qed
  have agg: "\<exists>g s'. step n fs rx g s = Some s'" if "aggregator_step n s \<noteq> None"
  proof -
    from that obtain s' where "aggregator_step n s = Some s'" by auto
    with np have "step n fs rx Aggregator s = Some s'" by simp
    then show ?thesis by blast
  qed
  have disp: "\<exists>g s'. step n fs rx g s = Some s'" if "dispatcher_step s \<noteq> None"
  proof -
    from that obtain s' where "dispatcher_step s = Some s'" by auto
    with np have "step n fs rx Dispatcher s = Some s'" by simp
    then show ?thesis by blast
  qed
  have work: "\<exists>g s'. step n fs rx g s = Some s'" if "worker_step fs rx i s \<noteq> None" for i
  proof -
    from that obtain s' where "worker_step fs rx i s = Some s'" by auto
    with np have "step n fs rx (Worker i) s = Some s'" by simp
    then show ?thesis by blast
  qed
  show ?thesis
  proof (cases "buf (results s) = [] \<and> \<not> closed (results s)")
    case False
    with nr have "main_step s \<noteq> None"
      by (auto simp: main_step_def split: list.splits)
    then show ?thesis by (rule main)
  next
    case True
    with ra obtain k where k: "aggregator s = Some k"
      by auto
    show ?thesis
    proof (cases "k < n \<and> buf (done_chan s) = []")
      case False
      have "aggregator_step n s \<noteq> None"
      proof (cases "k < n")
        case True
        with False obtain d ds where "buf (done_chan s) = d # ds"
          by (cases "buf (done_chan s)") auto
        with True k show ?thesis
          by (simp add: aggregator_step_def)
      next
        case False
        with k \<open>buf (results s) = [] \<and> \<not> closed (results s)\<close> show ?thesis
          by (simp add: aggregator_step_def)
      qed
      then show ?thesis by (rule agg)
    next
      case idle: True
      with cnt k len have "count_list (workers s) Finished < length (workers s)"
        by simp
      from count_list_less_lengthD [OF this]
      obtain i where i: "i < length (workers s)" and nf: "workers s ! i \<noteq> Finished"
        by blast
      show ?thesis
      proof (cases "workers s ! i")
        case Ranging
        show ?thesis
        proof (cases "buf (jobs s) = [] \<and> \<not> closed (jobs s)")
          case False
          with Ranging i have "worker_step fs rx i s \<noteq> None"
            by (auto simp: worker_step_def split: list.splits)
          then show ?thesis by (rule work)
        next
          case True
          with dj cj idle have "dispatcher_step s \<noteq> None"
            by (auto simp: dispatcher_step_def split: option.splits list.splits)
          then show ?thesis by (rule disp)
        qed
      next
        case (Doing job es)
        have "worker_step fs rx i s \<noteq> None"
        proof (cases es)
          case Nil
          with Doing i show ?thesis by (simp add: worker_step_def)
        next
          case (Cons e es')
          with Doing i True nr show ?thesis
            by (cases e) (auto simp: worker_step_def)
        qed
        then show ?thesis by (rule work)
      next
        case Signalling
        with i od cd idle have "worker_step fs rx i s \<noteq> None"
          by (auto simp: worker_step_def)
        then show ?thesis by (rule work)
      next
        case Finished
        with nf show ?thesis by simp
      qed
    qed
  qed
qed

lemma returns_from_reachable:
  "reachable n fs rx fnames s \<Longrightarrow> returns n fs rx s"
proof (induction "weight n fs rx s" arbitrary: s rule: less_induct)
  case less
  from less.prems have inv: "grep_inv n s" by (rule reachable_inv)
  show ?case
  proof (cases "returned s")
    case True
    with inv show ?thesis by (auto simp: grep_inv_def intro: returns.now)
  next
    case False
    show ?thesis
    proof (rule returns.later)
      show "\<exists>g s'. step n fs rx g s = Some s'"
        using inv False by (rule progress)
    next
      fix g s'
      assume st: "step n fs rx g s = Some s'"
      then have "weight n fs rx s' < weight n fs rx s" by (rule step_weight)
      moreover from less.prems st have "reachable n fs rx fnames s'" by (rule reachable.step)
      ultimately show "returns n fs rx s'" by (rule less.hyps)
    qed
  qed
qed

lemma returned_printed:
  assumes r: "reachable n fs rx fnames s" and ret: "returned s" and n: "1 \<le> n"
  shows "mset (printed s) = (\<Sum>f\<leftarrow>fnames. mset (sends (Do fs (Job f) rx)))"
proof -
  from r have inv: "grep_inv n s" by (rule reachable_inv)
  with ret count_le_length [of "workers s" Finished]
  have cnt: "count_list (workers s) Finished = length (workers s)"
    and res: "buf (results s) = []" and len: "length (workers s) = n"
    by (auto simp: grep_inv_def)
  have fin: "w = Finished" if "w \<in> set (workers s)" for w
  proof (rule ccontr)
    assume "w \<noteq> Finished"
    with that obtain i where "i < length (workers s)" "workers s ! i \<noteq> Finished"
      by (auto simp: in_set_conv_nth)
    with count_list_less_length [of i "workers s" Finished] cnt show False by simp
  qed
  from len n have "workers s \<noteq> []" by auto
  then obtain w where "w \<in> set (workers s)" by (cases "workers s") auto
  with fin have "Finished \<in> set (workers s)" by auto
  with inv have jobs: "buf (jobs s) = []" and disp: "dispatcher s = None"
    by (auto simp: grep_inv_def)
  have "(\<forall>w \<in> set ws. w = Finished) \<Longrightarrow> (\<Sum>w\<leftarrow>ws. mset (pending w)) = {#}" for ws
    by (induction ws) auto
  with fin have "(\<Sum>w\<leftarrow>workers s. mset (pending w)) = {#}"
    by blast
  with res jobs disp have "owed fs rx s = mset (printed s)"
    by (simp add: owed_def)
  with reachable_owed [OF r] show ?thesis by simp
qed

lemma run_reachable:
  "run n fs rx gs s = Some s' \<Longrightarrow> reachable n fs rx fnames s \<Longrightarrow> reachable n fs rx fnames s'"
proof (induction gs arbitrary: s)
  case Nil
  then show ?case by simp
next
  case (Cons g gs)
  from Cons.prems(1) obtain t where t: "step n fs rx g s = Some t" and r: "run n fs rx gs t = Some s'"
    by (auto split: option.splits)
  from Cons.prems(2) t have "reachable n fs rx fnames t" by (rule reachable.step)
  with r show ?case by (rule Cons.IH)
qed

section \<open>Properties\<close>

text \<open>
  C1. The claim: what \<^verbatim>\<open>grep\<close> reports is the matches of the lines of the files. The
  file \<^verbatim>\<open>a.txt\<close> holds the one line \<^verbatim>\<open>x\<close>, ended by \<^verbatim>\<open>\\n\<close>, and the pattern matches
  every content. On every schedule of two workers \<^verbatim>\<open>grep\<close> has printed two results when
  it returns, the match of line 1 and a match numbered 2 with empty content; the file has
  one line and one match.
\<close>

theorem grep_reports_phantom_match:
  assumes "reachable 2 (\<lambda>p. Inr \<lparr>data = ''x'' @ [nl], final = EOF\<rparr>) (\<lambda>l. True) [''a.txt''] s"
    and "returned s"
  shows "mset (printed s) =
      {#\<lparr>fname = ''a.txt'', lino = 1, line = ''x''\<rparr>, \<lparr>fname = ''a.txt'', lino = 2, line = []\<rparr>#} \<and>
    spec_matches (\<lambda>l. True) ''a.txt'' (''x'' @ [nl]) = [\<lparr>fname = ''a.txt'', lino = 1, line = ''x''\<rparr>]"
proof -
  have "sends (Do (\<lambda>p. Inr \<lparr>data = ''x'' @ [nl], final = EOF\<rparr>) (Job ''a.txt'') (\<lambda>l. True)) =
      [\<lparr>fname = ''a.txt'', lino = 1, line = ''x''\<rparr>, \<lparr>fname = ''a.txt'', lino = 2, line = []\<rparr>]"
    using Do_loop_file [of "''x'' @ [nl]" "[]" "\<lambda>l. True" "''a.txt''" 1 EOF]
    by (simp add: Do_def spec_lines_def spec_matches_of_def spec_strip_def nl_def cr_def)
  with returned_printed [OF assms] show ?thesis
    by (simp add: spec_matches_def spec_lines_def spec_matches_of_def spec_strip_def nl_def cr_def)
qed

theorem grep_reports_phantom_match_witness:
  "\<exists>s. reachable 2 (\<lambda>p. Inr \<lparr>data = ''x'' @ [nl], final = EOF\<rparr>) (\<lambda>l. True) [''a.txt''] s \<and>
     returned s \<and>
     printed s = [\<lparr>fname = ''a.txt'', lino = 1, line = ''x''\<rparr>,
       \<lparr>fname = ''a.txt'', lino = 2, line = []\<rparr>] \<and>
     mset (printed s) =
       {#\<lparr>fname = ''a.txt'', lino = 1, line = ''x''\<rparr>, \<lparr>fname = ''a.txt'', lino = 2, line = []\<rparr>#}"
proof -
  let ?fs = "\<lambda>p :: string. Inr \<lparr>data = ''x'' @ [nl], final = EOF\<rparr> :: error + source"
  let ?rx = "\<lambda>l :: string. True"
  let ?s = "\<lparr>jobs = \<lparr>buf = [], cap = 2, closed = True\<rparr>,
      results = \<lparr>buf = [], cap = 1, closed = True\<rparr>,
      done_chan = \<lparr>buf = [], cap = 2, closed = False\<rparr>,
      dispatcher = None, workers = [Finished, Finished], aggregator = None,
      printed = [\<lparr>fname = ''a.txt'', lino = 1, line = ''x''\<rparr>,
        \<lparr>fname = ''a.txt'', lino = 2, line = []\<rparr>],
      logged = [], returned = True, panicked = False\<rparr>"
  have "run 2 ?fs ?rx
     [Dispatcher, Dispatcher, Worker 1, Worker 1, Main, Worker 1, Main, Worker 1, Worker 1,
      Worker 1, Worker 0, Worker 0, Aggregator, Aggregator, Aggregator, Main]
     (grep_init 2 [''a.txt'']) = Some ?s"
    by code_simp
  then have r: "reachable 2 ?fs ?rx [''a.txt''] ?s"
    by (rule run_reachable) (rule reachable.init)
  have ret: "returned ?s"
    by simp
  from grep_reports_phantom_match [OF r ret] r ret show ?thesis
    by (intro exI [of _ ?s]) simp
qed

text \<open>
  C2. The claim: a file with no line gives no match, whatever the pattern. The code reads
  once from the empty file, gets no byte together with \<^verbatim>\<open>io.EOF\<close>, and tests the
  empty content before it looks at the error: with a pattern that matches the empty
  string it sends a match numbered 1.
\<close>

theorem Do_empty_file_phantom_match:
  "Do (\<lambda>p. Inr \<lparr>data = [], final = EOF\<rparr>) (Job ''empty.txt'') (\<lambda>l. True) =
   [Send \<lparr>fname = ''empty.txt'', lino = 1, line = []\<rparr>]"
  by (simp add: Do_def Do_loop_last)

text \<open>
  C3. The claim: after a read failure the partially read line is never sent as a match.
  The code tests what \<^verbatim>\<open>ReadBytes\<close> returned before it looks at the error: here the
  read fails after \<^verbatim>\<open>ba\<close>, and \<^verbatim>\<open>ba\<close> is sent as the match of line 2. The match
  of the complete line 1 is sent and the scan stops at the failure, as the claim says.
\<close>

theorem Do_read_failure_partial_line:
  "Do (\<lambda>p. Inr \<lparr>data = ''bar'' @ [nl] @ ''ba'', final = ErrOther ''input/output error''\<rparr>)
      (Job ''a.txt'') (\<lambda>l. CHR ''a'' \<in> set l) =
   [Send \<lparr>fname = ''a.txt'', lino = 1, line = ''bar''\<rparr>,
    Send \<lparr>fname = ''a.txt'', lino = 2, line = ''ba''\<rparr>,
    Log (ReadError (ErrOther ''input/output error''))]"
  using Do_loop_file [of "''bar'' @ [nl]" "''ba''" "\<lambda>l. CHR ''a'' \<in> set l" "''a.txt''" 1
      "ErrOther ''input/output error''"]
  by (simp add: Do_def spec_lines_def spec_matches_of_def spec_strip_def nl_def cr_def)

text \<open>
  C4. The claim: a file that fails to open gives no match. The code logs the failure and
  goes on reading the nil file: the read returns no byte and \<^verbatim>\<open>os.ErrInvalid\<close>, and
  with a pattern that matches the empty string a match numbered 1 is sent.
\<close>

theorem Do_open_failure_match:
  "Do (\<lambda>p. Inl (ErrOther ''no such file or directory'')) (Job ''missing.txt'') (\<lambda>l. True) =
   [Log (OpenError (ErrOther ''no such file or directory'')),
    Send \<lparr>fname = ''missing.txt'', lino = 1, line = []\<rparr>,
    Log (ReadError ErrInvalid)]"
  by (simp add: Do_def nil_file_def Do_loop_last)

text \<open>
  C5. A file is some complete lines \<^verbatim>\<open>pre\<close> (empty, or ending in \<^verbatim>\<open>\\n\<close>) followed by
  a last line \<^verbatim>\<open>lst\<close> that is not empty and has no \<^verbatim>\<open>\\n\<close>. Then \<^verbatim>\<open>Job.Do\<close> sends
  the matches of the complete lines and then tests the stripped last line, under the next
  line number (the number of complete lines plus 1): it is sent exactly when it matches.
\<close>

theorem Do_unterminated_final_line:
  assumes "fs (jname job) = Inr \<lparr>data = pre @ lst, final = EOF\<rparr>"
    and "pre = [] \<or> last pre = nl" and "lst \<noteq> []" and "nl \<notin> set lst"
  shows "Do fs job lineRx =
     map Send (spec_matches lineRx (jname job) pre @
       (if lineRx (TrimRight lst [nl, cr])
        then [\<lparr>fname = jname job, lino = int (length (spec_lines pre)) + 1,
               line = TrimRight lst [nl, cr]\<rparr>]
        else []))"
  using assms
  by (simp add: Do_opened Do_loop_file spec_matches_def length_spec_lines TrimRight_spec_strip)

theorem Do_unterminated_final_line_witness:
  "Do (\<lambda>p. Inr \<lparr>data = ''foo'' @ [nl] @ ''bar'', final = EOF\<rparr>) (Job ''a.txt'')
      (\<lambda>l. CHR ''a'' \<in> set l) =
   [Send \<lparr>fname = ''a.txt'', lino = 2, line = ''bar''\<rparr>]"
  using Do_unterminated_final_line [of "\<lambda>p. Inr \<lparr>data = ''foo'' @ [nl] @ ''bar'', final = EOF\<rparr>"
      "Job ''a.txt''" "''foo'' @ [nl]" "''bar''" "\<lambda>l. CHR ''a'' \<in> set l"]
  by (simp add: spec_matches_def spec_lines_def spec_matches_of_def spec_strip_def TrimRight_def nl_def cr_def)

text \<open>
  C6. The matches that \<^verbatim>\<open>Job.Do\<close> sends for its file are sent in strictly ascending
  order of their line numbers.
\<close>

theorem Do_sends_ascending:
  "sorted_wrt (<) (map lino (sends (Do fs job lineRx)))"
  by (cases "fs (jname job)") (simp_all add: Do_def Do_loop_sorted)

text \<open>
  C7. For every list of file names, the empty one too, and every number of workers,
  \<^verbatim>\<open>grep\<close> returns on every schedule: as long as it has not returned some goroutine
  can move, no step panics, and the number of steps is bounded; at the end the loop of
  \<^verbatim>\<open>grep\<close> has found \<^verbatim>\<open>results\<close> closed and empty.
\<close>

theorem grep_returns: "returns cntWorkers fs lineRx (grep_init cntWorkers fnames)"
  by (rule returns_from_reachable [OF reachable.init])

theorem grep_returns_witness:
  "returns 2 (\<lambda>p. if p = ''a.txt'' then Inr \<lparr>data = ''x'' @ [nl], final = EOF\<rparr>
       else Inl (ErrOther ''no such file or directory'')) (\<lambda>l. CHR ''x'' \<in> set l)
     (grep_init 2 [''a.txt'', ''b.txt'', ''a.txt'']) \<and>
   returns 1 (\<lambda>p. Inl (ErrOther ''no such file or directory'')) (\<lambda>l. True) (grep_init 1 [])"
  using grep_returns [of 2 "\<lambda>p. if p = ''a.txt'' then Inr \<lparr>data = ''x'' @ [nl], final = EOF\<rparr>
       else Inl (ErrOther ''no such file or directory'')" "\<lambda>l. CHR ''x'' \<in> set l"
      "[''a.txt'', ''b.txt'', ''a.txt'']"]
    grep_returns [of 1 "\<lambda>p. Inl (ErrOther ''no such file or directory'')" "\<lambda>l. True" "[]"]
  by simp

text \<open>
  C8. Trimming removes every trailing run of \<^verbatim>\<open>\\n\<close> and \<^verbatim>\<open>\\r\<close>, whatever its length
  and order; every match that \<^verbatim>\<open>Job.Do\<close> sends has a content that was matched by the
  pattern as it is sent, and that does not end in \<^verbatim>\<open>\\n\<close> or \<^verbatim>\<open>\\r\<close>.
\<close>

theorem Do_strips_terminators:
  "(set t \<subseteq> {nl, cr} \<longrightarrow> TrimRight (s @ t) [nl, cr] = TrimRight s [nl, cr]) \<and>
   (\<forall>r \<in> set (sends (Do fs job lineRx)).
      lineRx (line r) \<and> (line r \<noteq> [] \<longrightarrow> last (line r) \<noteq> nl \<and> last (line r) \<noteq> cr))"
proof -
  have "lineRx (line r) \<and> (line r \<noteq> [] \<longrightarrow> last (line r) \<noteq> nl \<and> last (line r) \<noteq> cr)"
    if "r \<in> set (sends (Do_loop lineRx f n src))" for r f n src
    using Do_loop_sends_bounds [OF that] spec_strip_no_trailing by auto
  then show ?thesis
    by (cases "fs (jname job)") (auto simp: Do_def TrimRight_spec_strip spec_strip_append_cut)
qed

theorem Do_strips_terminators_witness:
  "TrimRight (''abc'' @ [cr, nl, cr, nl]) [nl, cr] = ''abc'' \<and>
   sends (Do (\<lambda>p. Inr \<lparr>data = ''abc'' @ [cr, cr, nl] @ ''x'', final = EOF\<rparr>) (Job ''a.txt'')
      (\<lambda>l. CHR ''a'' \<in> set l)) = [\<lparr>fname = ''a.txt'', lino = 1, line = ''abc''\<rparr>] \<and>
   last ''abc'' \<noteq> nl \<and> last ''abc'' \<noteq> cr"
proof -
  let ?fs = "\<lambda>p :: string. Inr \<lparr>data = ''abc'' @ [cr, cr, nl] @ ''x'', final = EOF\<rparr> :: error + source"
  let ?P = "\<lambda>l. CHR ''a'' \<in> set l"
  have s: "sends (Do ?fs (Job ''a.txt'') ?P) = [\<lparr>fname = ''a.txt'', lino = 1, line = ''abc''\<rparr>]"
    using Do_loop_file [of "''abc'' @ [cr, cr, nl]" "''x''" ?P "''a.txt''" 1 EOF]
    by (simp add: Do_def spec_lines_def spec_matches_of_def spec_strip_def nl_def cr_def)
  from Do_strips_terminators [of "[cr, nl, cr, nl]" "''abc''" ?fs "Job ''a.txt''" ?P] s
  show ?thesis
    by (simp add: TrimRight_def nl_def cr_def)
qed

text \<open>
  C9. For a file that ends in \<^verbatim>\<open>\\n\<close> and a pattern that matches the empty string,
  \<^verbatim>\<open>Job.Do\<close> sends the matches of the file's lines and then one more match, with
  empty content, numbered by the number of lines plus 1.
\<close>

theorem Do_trailing_newline_extra_match:
  assumes "fs (jname job) = Inr \<lparr>data = content, final = EOF\<rparr>"
    and "content \<noteq> [] \<and> last content = nl" and "lineRx []"
  shows "Do fs job lineRx =
     map Send (spec_matches lineRx (jname job) content @
       [\<lparr>fname = jname job, lino = int (length (spec_lines content)) + 1, line = []\<rparr>])"
  using assms Do_loop_file [of content "[]" lineRx "jname job" 1 EOF]
  by (simp add: Do_opened spec_matches_def length_spec_lines)

theorem Do_trailing_newline_extra_match_witness:
  "Do (\<lambda>p. Inr \<lparr>data = ''foo'' @ [nl] @ ''bar'' @ [nl], final = EOF\<rparr>) (Job ''a.txt'')
      (\<lambda>l. CHR ''f'' \<notin> set l) =
   [Send \<lparr>fname = ''a.txt'', lino = 2, line = ''bar''\<rparr>,
    Send \<lparr>fname = ''a.txt'', lino = 3, line = []\<rparr>]"
  using Do_trailing_newline_extra_match [of "\<lambda>p. Inr \<lparr>data = ''foo'' @ [nl] @ ''bar'' @ [nl], final = EOF\<rparr>"
      "Job ''a.txt''" "''foo'' @ [nl] @ ''bar'' @ [nl]" "\<lambda>l. CHR ''f'' \<notin> set l"]
  by (simp add: spec_matches_def spec_lines_def spec_matches_of_def spec_strip_def nl_def cr_def)

text \<open>
  C10. On every platform other than Windows, \<^verbatim>\<open>commandLineFiles\<close> returns the list of
  file names it was given, unchanged and in the same order.
\<close>

theorem commandLineFiles_not_windows:
  "GOOS \<noteq> ''windows'' \<Longrightarrow> commandLineFiles GOOS Glob fnames = fnames"
  by (simp add: commandLineFiles_def)

theorem commandLineFiles_not_windows_witness:
  "''linux'' \<noteq> ''windows'' \<and>
   commandLineFiles ''linux'' (\<lambda>p. Inr []) [''a.txt'', ''*.go'', ''a.txt''] = [''a.txt'', ''*.go'', ''a.txt'']"
  using commandLineFiles_not_windows [of "''linux''" "\<lambda>p. Inr []" "[''a.txt'', ''*.go'', ''a.txt'']"]
  by simp

end
